theory Spec2Isabelle
  imports Main "HOL-Library.Word" "HOL-Library.Monad_Syntax"
begin

unbundle bit_operations_syntax

section \<open>Data model of \<^verbatim>\<open>tlv.h\<close>\<close>

text \<open>
  \<^verbatim>\<open>uchar\<close> and \<^verbatim>\<open>ushort\<close> are machine words; a C \<^verbatim>\<open>int\<close> is an \<^typ>\<open>int\<close>: the
  \<^verbatim>\<open>int\<close>s of \<^verbatim>\<open>tlv.c\<close> are indices into a block, limits given by the caller, sums of
  \<^verbatim>\<open>ushort\<close>s and return codes, none of which comes near the 32-bit bounds for blocks of
  less than \<open>2\<^sup>3\<^sup>1 - 2\<close> bytes.
\<close>

type_synonym uchar = "8 word"
type_synonym ushort = "16 word"

abbreviation (input) TAG_SEQ :: "'a::len word" where "TAG_SEQ \<equiv> 0x1f"
abbreviation (input) TAG_NEXT :: "'a::len word" where "TAG_NEXT \<equiv> 0x80"
abbreviation (input) TAG_CONSTR :: "'a::len word" where "TAG_CONSTR \<equiv> 0x20"
abbreviation (input) LEN_BYTES :: "'a::len word" where "LEN_BYTES \<equiv> 0x80"

text \<open>
  The struct \<^verbatim>\<open>TLV\<close>. The pointer \<^verbatim>\<open>v\<close> is the offset of the value in the memory block
  the view refers to.
\<close>

record TLV =
  tlv_t :: ushort
  tlv_l :: ushort
  tlv_v :: int

text \<open>
  A memory block is the list of its bytes, a pointer into it an offset. An access outside
  the block is undefined behaviour in C; the model makes it the result \<open>None\<close>, which
  every caller propagates.
\<close>

definition rd :: "uchar list \<Rightarrow> int \<Rightarrow> uchar option" where
  "rd m a = (if 0 \<le> a \<and> a < int (length m) then Some (m ! nat a) else None)"

text \<open>
  What a decoding function hands back: \<open>Rc r\<close> when it returns the code \<open>r \<le> 0\<close> (no
  caller reads its out-parameter then), \<open>Val x\<close> when it returns a positive code and has
  filled its out-parameter.
\<close>

datatype 'a ret = Rc int | Val 'a

section \<open>Decoding\<close>

text \<open>
  \<^verbatim>\<open>tlv_tag0\<close> returns the shifted \<^verbatim>\<open>ushort\<close> as an \<^verbatim>\<open>int\<close>, which every caller only masks
  with a byte constant; the model keeps the \<^verbatim>\<open>ushort\<close>.
\<close>

definition tlv_tag0 :: "ushort \<Rightarrow> ushort" where
  "tlv_tag0 tag = (if tag > 0xff then drop_bit 8 tag else tag)"

text \<open>\<^verbatim>\<open>while (i < rlen && rbuf[i]==0x00) i++;\<close>\<close>

function skip_filler :: "uchar list \<Rightarrow> int \<Rightarrow> int \<Rightarrow> int \<Rightarrow> int option" where
  "skip_filler m rbuf rlen i =
     (if i < rlen
      then do { b \<leftarrow> rd m (rbuf + i);
                if b = 0x00 then skip_filler m rbuf rlen (i + 1) else Some i }
      else Some i)"
  by pat_completeness auto
termination
  by (relation "measure (\<lambda>(m, rbuf, rlen, i). nat (rlen - i))") auto

text \<open>
  \<^verbatim>\<open>do { i++; *tag <<= 8; *tag |= rbuf[i]; } while(i < rlen && (rbuf[i]&TAG_NEXT) != 0);\<close>
  The body reads \<^verbatim>\<open>rbuf[i]\<close> before the condition compares \<^verbatim>\<open>i\<close> with \<^verbatim>\<open>rlen\<close>.
\<close>

function tag_loop :: "uchar list \<Rightarrow> int \<Rightarrow> int \<Rightarrow> int \<Rightarrow> ushort \<Rightarrow> (int \<times> ushort) option" where
  "tag_loop m rbuf rlen i tag =
     do { b \<leftarrow> rd m (rbuf + (i + 1));
          if i + 1 < rlen \<and> b AND TAG_NEXT \<noteq> 0
          then tag_loop m rbuf rlen (i + 1) (push_bit 8 tag OR ucast b)
          else Some (i + 1, push_bit 8 tag OR ucast b) }"
  by pat_completeness auto
termination
  by (relation "measure (\<lambda>(m, rbuf, rlen, i, tag). nat (rlen - i))") auto

definition tlv_tag :: "uchar list \<Rightarrow> int \<Rightarrow> int \<Rightarrow> (int \<times> ushort) ret option" where
  "tlv_tag m rbuf rlen =
     (if rlen < 0 then Some (Rc (- 1))
      else do {
        j \<leftarrow> skip_filler m rbuf rlen 0;
        if j = rlen then Some (Rc 0)
        else do {
          b \<leftarrow> rd m (rbuf + j);
          if b AND TAG_SEQ = TAG_SEQ
          then do {
            (i, tag) \<leftarrow> tag_loop m rbuf rlen j (ucast b);
            if i \<ge> rlen then Some (Rc (- 1))
            else do {
              c \<leftarrow> rd m (rbuf + i);
              if c AND TAG_NEXT \<noteq> 0 then Some (Rc (- 1))
              else Some (Val (i + 1, if (i + 1) - j > 2 then 0 else tag)) } }
          else Some (Val (j + 1, if (j + 1) - j > 2 then 0 else ucast b)) } })"

text \<open>\<^verbatim>\<open>for (tlv->l=0; i > 0; i--) { tlv->l <<= 8; tlv->l |= *rbuf++; }\<close>\<close>

function len_loop :: "uchar list \<Rightarrow> int \<Rightarrow> int \<Rightarrow> ushort \<Rightarrow> (ushort \<times> int) option" where
  "len_loop m rbuf i len =
     (if i > 0
      then do { b \<leftarrow> rd m rbuf; len_loop m (rbuf + 1) (i - 1) (push_bit 8 len OR ucast b) }
      else Some (len, rbuf))"
  by pat_completeness auto
termination
  by (relation "measure (\<lambda>(m, rbuf, i, len). nat i)") auto

definition tlv_tlv0 :: "uchar list \<Rightarrow> int \<Rightarrow> int \<Rightarrow> TLV ret option" where
  "tlv_tlv0 m rbuf rlen =
     do { r \<leftarrow> tlv_tag m rbuf rlen;
          case r of
            Rc i \<Rightarrow> Some (Rc i)
          | Val (i, tag) \<Rightarrow>
              if rlen - i \<le> 0 then Some (Rc (- 1))
              else do {
                b \<leftarrow> rd m (rbuf + i);
                if b AND LEN_BYTES \<noteq> 0
                then (let n = uint (b AND 0x7f) in
                      if n > rlen - i - 1 then Some (Rc (- 1))
                      else if n > 2 then Some (Rc (- 2))
                      else do {
                        (len, p) \<leftarrow> len_loop m (rbuf + i + 1) n 0;
                        Some (Val \<lparr>tlv_t = tag, tlv_l = len, tlv_v = p\<rparr>) })
                else Some (Val \<lparr>tlv_t = tag, tlv_l = ucast b, tlv_v = rbuf + i + 1\<rparr>) } }"

definition tlv_parseTLV :: "uchar list \<Rightarrow> int \<Rightarrow> int \<Rightarrow> TLV ret option" where
  "tlv_parseTLV m rbuf rlen =
     do { r \<leftarrow> tlv_tlv0 m rbuf rlen;
          case r of
            Rc i \<Rightarrow> Some (Rc i)
          | Val tlv \<Rightarrow>
              if uint (tlv_l tlv) > rlen - (tlv_v tlv - rbuf) then Some (Rc (- 1))
              else Some (Val tlv) }"


subsection \<open>Progress of the decoders\<close>

declare skip_filler.simps [simp del] tag_loop.simps [simp del] len_loop.simps [simp del]

lemma skip_filler_bounds: "skip_filler m rbuf rlen i = Some j \<Longrightarrow> i \<le> j \<and> j \<le> max i rlen"
proof (induction m rbuf rlen i rule: skip_filler.induct)
  case (1 m rbuf rlen i)
  show ?case
  proof (cases "i < rlen")
    case True
    with "1.prems" obtain b where b: "rd m (rbuf + i) = Some b"
      by (subst (asm) skip_filler.simps) (auto split: bind_splits)
    show ?thesis
    proof (cases "b = 0")
      case True
      with "1.prems" \<open>i < rlen\<close> b have "skip_filler m rbuf rlen (i + 1) = Some j"
        by (subst (asm) skip_filler.simps) simp
      with "1.IH" \<open>i < rlen\<close> b True have "i + 1 \<le> j \<and> j \<le> max (i + 1) rlen" by simp
      with \<open>i < rlen\<close> show ?thesis by simp
    next
      case False
      with "1.prems" \<open>i < rlen\<close> b show ?thesis
        by (subst (asm) skip_filler.simps) simp
    qed
  next
    case False
    with "1.prems" show ?thesis by (subst (asm) skip_filler.simps) simp
  qed
qed

lemma tag_loop_gt: "tag_loop m rbuf rlen i tag = Some (k, tag') \<Longrightarrow> i < k"
proof (induction m rbuf rlen i tag rule: tag_loop.induct)
  case (1 m rbuf rlen i tag)
  from "1.prems" obtain b where b: "rd m (rbuf + (i + 1)) = Some b"
    by (subst (asm) tag_loop.simps) (auto split: bind_splits)
  show ?case
  proof (cases "i + 1 < rlen \<and> b AND 0x80 \<noteq> 0")
    case True
    with "1.prems" b
    have "tag_loop m rbuf rlen (i + 1) (push_bit 8 tag OR ucast b) = Some (k, tag')"
      by (subst (asm) tag_loop.simps) simp
    with "1.IH" b True have "i + 1 < k" by simp
    then show ?thesis by simp
  next
    case False
    with "1.prems" b show ?thesis by (subst (asm) tag_loop.simps) auto
  qed
qed

lemma len_loop_ptr: "len_loop m rbuf i len = Some (len', p) \<Longrightarrow> p = rbuf + max 0 i"
proof (induction m rbuf i len rule: len_loop.induct)
  case (1 m rbuf i len)
  show ?case
  proof (cases "i > 0")
    case True
    with "1.prems" obtain b where b: "rd m rbuf = Some b"
      by (subst (asm) len_loop.simps) (auto split: bind_splits)
    with "1.prems" True
    have "len_loop m (rbuf + 1) (i - 1) (push_bit 8 len OR ucast b) = Some (len', p)"
      by (subst (asm) len_loop.simps) simp
    with "1.IH" True b have "p = rbuf + 1 + max 0 (i - 1)" by simp
    with True show ?thesis by simp
  next
    case False
    with "1.prems" show ?thesis by (subst (asm) len_loop.simps) simp
  qed
qed

lemma tlv_tag_pos: "tlv_tag m rbuf rlen = Some (Val (i, tag)) \<Longrightarrow> 0 < i \<and> i \<le> rlen"
  unfolding tlv_tag_def
  by (auto split: if_splits bind_splits dest!: skip_filler_bounds tag_loop_gt)

lemma pos_add_uint: "0 < a \<Longrightarrow> 0 < a + uint w"
  using uint_ge_0 [of w] by linarith

lemma tlv_tlv0_ptr:
  "tlv_tlv0 m rbuf rlen = Some (Val tlv) \<Longrightarrow> rbuf + 1 < tlv_v tlv \<and> tlv_v tlv - rbuf \<le> rlen"
  unfolding tlv_tlv0_def
  by (auto split: if_splits bind_splits ret.splits simp: Let_def max_def pos_add_uint
           dest!: tlv_tag_pos len_loop_ptr)

lemma tlv_parseTLV_progress:
  "tlv_parseTLV m rbuf rlen = Some (Val tlv) \<Longrightarrow>
     rbuf + 1 < tlv_v tlv \<and> tlv_v tlv + uint (tlv_l tlv) \<le> rbuf + rlen"
  unfolding tlv_parseTLV_def
  by (auto split: if_splits bind_splits ret.splits dest!: tlv_tlv0_ptr)


subsection \<open>The ASCII header\<close>

text \<open>
  \<^verbatim>\<open>sscanf(s, "%04u", &x)\<close> and \<^verbatim>\<open>sscanf(s, "%02u", &x)\<close> of the C library. The first
  argument of \<^verbatim>\<open>sscanf\<close> is a string, the bytes from the pointer up to the first NUL byte,
  and \<^verbatim>\<open>sscanf\<close> looks for that NUL byte whatever the field width is: in a block that holds
  no NUL byte from the pointer on, the call reads outside the block (\<open>None\<close>).
  On the string the conversion \<^verbatim>\<open>u\<close> with a maximum field width \<open>w\<close> is the one of the C
  standard: white space is skipped, then at most \<open>w\<close> characters are taken, an optional
  sign and decimal digits, up to the end of the string at most, and the conversion takes
  place (\<^verbatim>\<open>sscanf\<close> returns 1) when there is at least one digit. The result \<open>None\<close> of
  \<open>sscanf_u\<close> stands for a return value other than 1.
\<close>

definition isspace :: "uchar \<Rightarrow> bool" where
  "isspace c = (c = 0x20 \<or> (0x09 \<le> c \<and> c \<le> 0x0d))"

definition isdigit :: "uchar \<Rightarrow> bool" where
  "isdigit c = (0x30 \<le> c \<and> c \<le> 0x39)"

definition string_at :: "uchar list \<Rightarrow> int \<Rightarrow> uchar list option" where
  "string_at m p =
     (if 0 \<le> p \<and> 0 \<in> set (drop (nat p) m)
      then Some (takeWhile (\<lambda>c. c \<noteq> 0) (drop (nat p) m)) else None)"

fun skip_space :: "uchar list \<Rightarrow> uchar list" where
  "skip_space [] = []"
| "skip_space (c # s) = (if isspace c then skip_space s else c # s)"

fun scan_digits :: "uchar list \<Rightarrow> nat \<Rightarrow> nat \<Rightarrow> bool \<Rightarrow> nat \<times> bool" where
  "scan_digits s 0 acc seen = (acc, seen)"
| "scan_digits [] (Suc w) acc seen = (acc, seen)"
| "scan_digits (c # s) (Suc w) acc seen =
     (if isdigit c then scan_digits s w (10 * acc + unat (c - 0x30)) True
      else (acc, seen))"

definition sscanf_u :: "nat \<Rightarrow> uchar list \<Rightarrow> 32 word option" where
  "sscanf_u w s =
     (case skip_space s of
        [] \<Rightarrow> None
      | c # r \<Rightarrow>
          if c = 0x2b \<or> c = 0x2d
          then (let (x, seen) = scan_digits r (w - 1) 0 False
                in if seen then Some (if c = 0x2d then - of_nat x else of_nat x) else None)
          else (let (x, seen) = scan_digits (c # r) w 0 False
                in if seen then Some (of_nat x) else None))"

text \<open>
  \<^verbatim>\<open>tlv_parseLTV\<close>: both \<^verbatim>\<open>sscanf\<close> calls take the string at \<^verbatim>\<open>rbuf\<close>, and neither is given
  the limit \<^verbatim>\<open>rlen\<close>.
\<close>

definition tlv_parseLTV :: "uchar list \<Rightarrow> int \<Rightarrow> int \<Rightarrow> TLV ret option" where
  "tlv_parseLTV m rbuf rlen =
     (if rlen < 6 then Some (Rc (- 1))
      else do {
        s \<leftarrow> string_at m rbuf;
        case sscanf_u 4 s of
          None \<Rightarrow> Some (Rc (- 1))
        | Some x \<Rightarrow>
            (case sscanf_u 2 s of
               None \<Rightarrow> Some (Rc (- 1))
             | Some y \<Rightarrow>
                (let len = (ucast x :: ushort); tag = (ucast y :: ushort) in
                 if len < 2 then Some (Rc (- 1))
                 else if uint (len - 2) > rlen - ((rbuf + 6) - rbuf) then Some (Rc (- 1))
                 else Some (Val \<lparr>tlv_t = tag, tlv_l = len - 2, tlv_v = rbuf + 6\<rparr>))) })"

section \<open>Searching\<close>

text \<open>
  The loop of \<^verbatim>\<open>tlv_find\<close>, which ends at the first view that \<^verbatim>\<open>tlv_parseTLV\<close> does not
  deliver, whatever its return code. \<open>Rc 0\<close> is the return value 0 (not found: the
  out-parameter is zeroed but for the tag, and neither \<^verbatim>\<open>tb_add\<close> nor \<^verbatim>\<open>tb_del\<close> reads it
  then), \<open>Val t\<close> the return value 1 with the view copied out.
\<close>

function find_loop :: "uchar list \<Rightarrow> int \<Rightarrow> int \<Rightarrow> ushort \<Rightarrow> TLV ret option" where
  "find_loop m b l tag =
     do { r \<leftarrow> tlv_parseTLV m b l;
          case r of
            Rc i \<Rightarrow> Some (Rc 0)
          | Val t \<Rightarrow>
              if tlv_t t = tag then Some (Val t)
              else find_loop m (tlv_v t + uint (tlv_l t)) (l - (tlv_v t + uint (tlv_l t) - b)) tag }"
  by pat_completeness auto
termination
proof (relation "measure (\<lambda>(m, b, l, tag). nat l)")
  show "wf (measure (\<lambda>(m, b, l, tag). nat l))" by simp
next
  fix m :: "uchar list" and b l :: int and tag :: ushort and r :: "TLV ret" and t :: TLV
  assume "tlv_parseTLV m b l = Some r" and "r = Val t"
  then have "b + 1 < tlv_v t \<and> tlv_v t + uint (tlv_l t) \<le> b + l"
    by (simp add: tlv_parseTLV_progress)
  with uint_ge_0 [of "tlv_l t"]
  have "nat (l - (tlv_v t + uint (tlv_l t) - b)) < nat l" by linarith
  then show "((m, tlv_v t + uint (tlv_l t), l - (tlv_v t + uint (tlv_l t) - b), tag), (m, b, l, tag))
               \<in> measure (\<lambda>(m, b, l, tag). nat l)"
    by simp
qed

definition tlv_find :: "uchar list \<Rightarrow> int \<Rightarrow> int \<Rightarrow> ushort \<Rightarrow> TLV ret option" where
  "tlv_find m b l tag = (if tag = 0 then Some (Rc 0) else find_loop m b l tag)"

text \<open>
  \<^verbatim>\<open>tlv_check\<close> returns \<^verbatim>\<open>i==0\<close>, or 0 from inside the loop: a truth value.
\<close>

function tlv_check :: "uchar list \<Rightarrow> int \<Rightarrow> int \<Rightarrow> bool option" where
  "tlv_check m b l =
     do { r \<leftarrow> tlv_parseTLV m b l;
          case r of
            Rc i \<Rightarrow> Some (i = 0)
          | Val t \<Rightarrow> do {
              inner \<leftarrow> (if tlv_tag0 (tlv_t t) AND TAG_CONSTR \<noteq> 0
                         then tlv_check m (tlv_v t) (uint (tlv_l t)) else Some True);
              if \<not> inner then Some False
              else tlv_check m (tlv_v t + uint (tlv_l t)) (l - (tlv_v t + uint (tlv_l t) - b)) } }"
  by pat_completeness auto
termination
proof (relation "measure (\<lambda>(m, b, l). nat l)")
  show "wf (measure (\<lambda>(m, b, l). nat l))" by simp
next
  fix m :: "uchar list" and b l :: int and r :: "TLV ret" and t :: TLV
  assume "tlv_parseTLV m b l = Some r" and "r = Val t"
  then have "b + 1 < tlv_v t \<and> tlv_v t + uint (tlv_l t) \<le> b + l"
    by (simp add: tlv_parseTLV_progress)
  with uint_ge_0 [of "tlv_l t"] have "nat (uint (tlv_l t)) < nat l" by linarith
  then show "((m, tlv_v t, uint (tlv_l t)), (m, b, l)) \<in> measure (\<lambda>(m, b, l). nat l)"
    by simp
next
  fix m :: "uchar list" and b l :: int and r :: "TLV ret" and t :: TLV and inner :: bool
  assume "tlv_parseTLV m b l = Some r" and "r = Val t"
  then have "b + 1 < tlv_v t \<and> tlv_v t + uint (tlv_l t) \<le> b + l"
    by (simp add: tlv_parseTLV_progress)
  with uint_ge_0 [of "tlv_l t"]
  have "nat (l - (tlv_v t + uint (tlv_l t) - b)) < nat l" by linarith
  then show "((m, tlv_v t + uint (tlv_l t), l - (tlv_v t + uint (tlv_l t) - b)), (m, b, l))
               \<in> measure (\<lambda>(m, b, l). nat l)"
    by simp
qed

declare find_loop.simps [simp del] tlv_check.simps [simp del]


section \<open>The tag collection\<close>

text \<open>
  The struct \<^verbatim>\<open>TLVbuf\<close>; \<open>tb_buf\<close> is the memory block \<^verbatim>\<open>buf\<close> points to. After
  \<^verbatim>\<open>tb_init\<close> and \<^verbatim>\<open>tb_alloc\<close> the block has \<^verbatim>\<open>mlen\<close> bytes and \<^verbatim>\<open>len\<close> is 0.
\<close>

record TLVbuf =
  tb_mlen :: ushort
  tb_len :: ushort
  tb_buf :: "uchar list"

definition tb_init :: "uchar list \<Rightarrow> ushort \<Rightarrow> TLVbuf" where
  "tb_init buf sz = \<lparr>tb_mlen = sz, tb_len = 0, tb_buf = buf\<rparr>"

text \<open>The values of \<^verbatim>\<open>errno.h\<close> (Linux).\<close>

definition EEXIST :: int where "EEXIST = 17"
definition EINVAL :: int where "EINVAL = 22"
definition EPIPE :: int where "EPIPE = 32"

text \<open>\<^verbatim>\<open>*b = x\<close> at the offset \<open>a\<close> of a block.\<close>

definition wr :: "uchar list \<Rightarrow> int \<Rightarrow> uchar \<Rightarrow> uchar list option" where
  "wr m a x = (if 0 \<le> a \<and> a < int (length m) then Some (m[nat a := x]) else None)"

text \<open>The \<open>n\<close> bytes that \<^verbatim>\<open>memcpy\<close> reads at the offset \<open>p\<close> of a block.\<close>

definition mem_get :: "uchar list \<Rightarrow> int \<Rightarrow> int \<Rightarrow> uchar list option" where
  "mem_get m p n =
     (if 0 \<le> p \<and> 0 \<le> n \<and> p + n \<le> int (length m) then Some (take (nat n) (drop (nat p) m))
      else None)"

text \<open>The bytes \<open>xs\<close> stored from the offset \<open>p\<close> of a block on (\<^verbatim>\<open>memcpy\<close>, \<^verbatim>\<open>memset\<close>).\<close>

definition mem_put :: "uchar list \<Rightarrow> int \<Rightarrow> uchar list \<Rightarrow> uchar list option" where
  "mem_put m p xs =
     (if 0 \<le> p \<and> p + int (length xs) \<le> int (length m)
      then Some (take (nat p) m @ xs @ drop (nat p + length xs) m)
      else None)"

text \<open>
  \<^verbatim>\<open>memcpy(dst, src, n)\<close> inside one block, as \<^verbatim>\<open>tb_del\<close> calls it. A negative \<open>n\<close> is a
  huge \<^verbatim>\<open>size_t\<close>, which leaves every block, and \<^verbatim>\<open>memcpy\<close> between ranges that overlap is
  undefined behaviour in C as an access outside the block is: both are the result \<open>None\<close>.
\<close>

definition mem_copy :: "uchar list \<Rightarrow> int \<Rightarrow> int \<Rightarrow> int \<Rightarrow> uchar list option" where
  "mem_copy m dst src n =
     (if n < 0 \<or> (dst < src + n \<and> src < dst + n) then None
      else do { xs \<leftarrow> mem_get m src n; mem_put m dst xs })"

definition tb_find :: "TLVbuf \<Rightarrow> ushort \<Rightarrow> TLV ret option" where
  "tb_find tb tag = tlv_find (tb_buf tb) 0 (uint (tb_len tb)) tag"

text \<open>
  \<^verbatim>\<open>tb_del\<close>: the span is derived from the decoded length, each test reading the length
  the previous one has already incremented.
\<close>

definition tb_del_span :: "TLV \<Rightarrow> ushort \<times> int" where
  "tb_del_span tlv =
     (let (l, v) = (tlv_l tlv, tlv_v tlv);
          (l, v) = (if l > 0x7f then (l + 1, v - 1) else (l, v));
          (l, v) = (if l > 0xff then (l + 1, v - 1) else (l, v));
          (l, v) = (l + 2, v - 2);
          (l, v) = (if tlv_t tlv > 0xff then (l + 1, v - 1) else (l, v))
      in (l, v))"

definition tb_del :: "TLVbuf \<Rightarrow> ushort \<Rightarrow> (int \<times> TLVbuf) option" where
  "tb_del tb t =
     do { r \<leftarrow> tb_find tb t;
          case r of
            Rc i \<Rightarrow> Some (0, tb)
          | Val tlv \<Rightarrow>
              (let (l, v) = tb_del_span tlv in
               do { buf \<leftarrow> mem_copy (tb_buf tb) v (v + uint l) (uint (tb_len tb) - (v + uint l));
                    Some (1, tb\<lparr>tb_buf := buf, tb_len := tb_len tb - l\<rparr>) }) }"

text \<open>
  \<^verbatim>\<open>tb_add\<close>. The view's \<^verbatim>\<open>v\<close> points into a block \<open>src\<close> outside the collection, or is
  \<^verbatim>\<open>NULL\<close> (\<open>src = None\<close>). The result is the return value, the collection and the view
  (\<^verbatim>\<open>tlv->v\<close> is retargeted into the collection's block when 1 is returned).
  \<open>tb_append\<close> is the part of \<^verbatim>\<open>tb_add\<close> from the capacity test on.
\<close>

definition tb_append :: "TLVbuf \<Rightarrow> uchar list option \<Rightarrow> TLV \<Rightarrow> (int \<times> TLVbuf \<times> TLV) option" where
  "tb_append tb src tlv =
     (if uint (tb_len tb) + uint (tlv_l tlv) + 2 \<ge> uint (tb_mlen tb) then Some (- EPIPE, tb, tlv)
      else do {
        (m, b) \<leftarrow> (if tlv_t tlv > 0xff
                    then do { m \<leftarrow> wr (tb_buf tb) (uint (tb_len tb)) (ucast (drop_bit 8 (tlv_t tlv)));
                              Some (m, uint (tb_len tb) + 1) }
                    else Some (tb_buf tb, uint (tb_len tb)));
        m \<leftarrow> wr m b (ucast (tlv_t tlv));
        let b = b + 1;
        (m, b) \<leftarrow> (if tlv_l tlv > 0xff
                    then do { m \<leftarrow> wr m b 0x82;
                              m \<leftarrow> wr m (b + 1) (ucast (drop_bit 8 (tlv_l tlv)));
                              Some (m, b + 2) }
                    else if tlv_l tlv > 0x7f
                    then do { m \<leftarrow> wr m b 0x81; Some (m, b + 1) }
                    else Some (m, b));
        m \<leftarrow> wr m b (ucast (tlv_l tlv));
        let b = b + 1;
        m \<leftarrow> (case src of
                Some s \<Rightarrow> do { xs \<leftarrow> mem_get s (tlv_v tlv) (uint (tlv_l tlv)); mem_put m b xs }
              | None \<Rightarrow> mem_put m b (replicate (unat (tlv_l tlv)) 0));
        Some (1, tb\<lparr>tb_buf := m, tb_len := word_of_int (b + uint (tlv_l tlv))\<rparr>,
              tlv\<lparr>tlv_v := b\<rparr>) })"

definition tb_add :: "TLVbuf \<Rightarrow> uchar list option \<Rightarrow> TLV \<Rightarrow> uchar \<Rightarrow> (int \<times> TLVbuf \<times> TLV) option" where
  "tb_add tb src tlv ovr =
     (if tlv_l tlv = 0 then Some (- EINVAL, tb, tlv)
      else if (tlv_t tlv \<le> 0xff \<and> tlv_tag0 (tlv_t tlv) AND TAG_SEQ = TAG_SEQ) \<or>
              (tlv_t tlv > 0xff \<and> tlv_t tlv AND TAG_NEXT \<noteq> 0) \<or> tlv_t tlv = 0
      then Some (- EINVAL, tb, tlv)
      else do {
        r \<leftarrow> (if ovr < 3 then tb_find tb (tlv_t tlv) else Some (Rc 0));
        case r of
          Rc i \<Rightarrow> tb_append tb src tlv
        | Val t \<Rightarrow>
            if ovr = 0 then Some (- EEXIST, tb, tlv)
            else if ovr = 2 then Some (0, tb, tlv)
            else if tlv_l tlv = tlv_l t
            then do {
              m \<leftarrow> (case src of
                      Some s \<Rightarrow> do { xs \<leftarrow> mem_get s (tlv_v tlv) (uint (tlv_l t));
                                     mem_put (tb_buf tb) (tlv_v t) xs }
                    | None \<Rightarrow> mem_put (tb_buf tb) (tlv_v t) (replicate (unat (tlv_l t)) 0));
              Some (1, tb\<lparr>tb_buf := m\<rparr>, tlv\<lparr>tlv_v := tlv_v t\<rparr>) }
            else do { (d, tb') \<leftarrow> tb_del tb (tlv_t tlv); tb_append tb' src tlv } })"




section \<open>Notions used in the statements\<close>

text \<open>The number that a string of ASCII decimal digits denotes.\<close>

definition decimal_value :: "uchar list \<Rightarrow> nat" where
  "decimal_value ds = foldl (\<lambda>a d. 10 * a + unat (d - 0x30)) 0 ds"

text \<open>
  The bytes that \<^verbatim>\<open>tb_add\<close> writes for a tag and for a length, and the tags that the
  decoder reads back as they were written: one byte without the continuation marker, or
  two bytes of which the first carries the marker and the second ends the tag.
\<close>

definition enc_tag :: "ushort \<Rightarrow> uchar list" where
  "enc_tag tg = (if tg > 0xff then [ucast (drop_bit 8 tg), ucast tg] else [ucast tg])"

definition enc_len :: "ushort \<Rightarrow> uchar list" where
  "enc_len n = (if n > 0xff then [0x82, ucast (drop_bit 8 n), ucast n]
                else if n > 0x7f then [0x81, ucast n] else [ucast n])"

definition good_tag :: "ushort \<Rightarrow> bool" where
  "good_tag tg = (if tg > 0xff then drop_bit 8 tg AND 0x1f = 0x1f \<and> tg AND 0x80 = 0
                  else tg \<noteq> 0 \<and> tg AND 0x1f \<noteq> 0x1f)"

text \<open>The value bytes that \<^verbatim>\<open>tb_add\<close> copies (\<^verbatim>\<open>memcpy\<close>) or fills in (\<^verbatim>\<open>memset\<close>).\<close>

definition src_bytes :: "uchar list option \<Rightarrow> TLV \<Rightarrow> uchar list option" where
  "src_bytes src tlv =
     (case src of Some s \<Rightarrow> mem_get s (tlv_v tlv) (uint (tlv_l tlv))
      | None \<Rightarrow> Some (replicate (unat (tlv_l tlv)) 0))"







text \<open>
  A record of a collection is a tag and its value bytes; \<open>enc_rec\<close> is its encoding as
  \<^verbatim>\<open>tb_add\<close> writes it. \<open>rec_ok\<close> holds of the records the invariant below is about: the
  tag is one the decoder reads back, the value has between 1 and 65535 bytes, and
  \<open>value_ok\<close> holds: the tag is primitive (\<^verbatim>\<open>tlv_check\<close> does not descend into the value), or
  \<^verbatim>\<open>tlv_check\<close> over the value bytes alone returns true.
\<close>

type_synonym record_of = "ushort \<times> uchar list"

definition rec_hdr :: "record_of \<Rightarrow> uchar list" where
  "rec_hdr r = enc_tag (fst r) @ enc_len (of_nat (length (snd r)))"

definition enc_rec :: "record_of \<Rightarrow> uchar list" where
  "enc_rec r = rec_hdr r @ snd r"

definition enc_recs :: "record_of list \<Rightarrow> uchar list" where
  "enc_recs rs = concat (map enc_rec rs)"










section \<open>The flat search and the tag 0\<close>

lemma find_loop_tag: "find_loop m b l tag = Some (Val t) \<Longrightarrow> tlv_t t = tag"
proof (induction m b l tag rule: find_loop.induct)
  case (1 m b l tag)
  from "1.prems" obtain r where r: "tlv_parseTLV m b l = Some r"
    by (subst (asm) find_loop.simps) (auto split: bind_splits)
  show ?case
  proof (cases r)
    case (Rc i)
    with "1.prems" r show ?thesis by (subst (asm) find_loop.simps) simp
  next
    case (Val u)
    show ?thesis
    proof (cases "tlv_t u = tag")
      case True
      with "1.prems" r Val show ?thesis by (subst (asm) find_loop.simps) auto
    next
      case False
      with "1.prems" r Val
      have "find_loop m (tlv_v u + uint (tlv_l u)) (l - (tlv_v u + uint (tlv_l u) - b)) tag = Some (Val t)"
        by (subst (asm) find_loop.simps) simp
      with "1.IH" r Val False show ?thesis by simp
    qed
  qed
qed

text \<open>
  Claim C10. \<^verbatim>\<open>tlv_find\<close>, and \<^verbatim>\<open>tb_find\<close> through it, called with the requested tag 0
  returns 0 (not found) whatever the memory, the pointer and the limit are: it returns
  before any byte is read (the result is not the memory fault even for an empty block).
  A view that a flat find does return carries the requested tag, which is not 0: a
  record whose decoded tag the overlong-tag fallback set to 0 is never located.
\<close>

theorem tlv_find_zero_tag:
  "tlv_find m b l 0 = Some (Rc 0) \<and> tb_find tb 0 = Some (Rc 0) \<and>
   (\<forall>tag t. tlv_find m b l tag = Some (Val t) \<longrightarrow> tlv_t t = tag \<and> tlv_t t \<noteq> 0)"
  by (auto simp: tlv_find_def tb_find_def dest: find_loop_tag split: if_splits)

theorem tlv_find_zero_tag_witness:
  "tlv_parseTLV [0x9F, 0x81, 0x01, 0x01, 0xAA, 0x82, 0x01, 0xBB] 0 8
     = Some (Val \<lparr>tlv_t = 0, tlv_l = 1, tlv_v = 4\<rparr>) \<and>
   tlv_find [0x9F, 0x81, 0x01, 0x01, 0xAA, 0x82, 0x01, 0xBB] 0 8 0 = Some (Rc 0) \<and>
   tlv_find [0x9F, 0x81, 0x01, 0x01, 0xAA, 0x82, 0x01, 0xBB] 0 8 0x82
     = Some (Val \<lparr>tlv_t = 0x82, tlv_l = 1, tlv_v = 7\<rparr>) \<and>
   tlv_t \<lparr>tlv_t = 0x82, tlv_l = 1, tlv_v = 7\<rparr> \<noteq> 0"
proof -
  let ?m = "[0x9F, 0x81, 0x01, 0x01, 0xAA, 0x82, 0x01, 0xBB] :: uchar list"
  have p: "tlv_parseTLV ?m 0 8 = Some (Val \<lparr>tlv_t = 0, tlv_l = 1, tlv_v = 4\<rparr>)"
    by (simp add: tlv_parseTLV_def tlv_tlv0_def tlv_tag_def rd_def skip_filler.simps tag_loop.simps)
  have q: "tlv_parseTLV ?m 5 3 = Some (Val \<lparr>tlv_t = 0x82, tlv_l = 1, tlv_v = 7\<rparr>)"
    by (simp add: tlv_parseTLV_def tlv_tlv0_def tlv_tag_def rd_def skip_filler.simps tag_loop.simps)
  have f: "tlv_find ?m 0 8 0x82 = Some (Val \<lparr>tlv_t = 0x82, tlv_l = 1, tlv_v = 7\<rparr>)"
    by (simp add: tlv_find_def find_loop.simps [of _ 0 8] find_loop.simps [of _ 5 3] p q)
  from tlv_find_zero_tag [of ?m 0 8] f p show ?thesis by simp
qed


section \<open>Bytes of a block\<close>

lemma rd_append_right: "0 \<le> k \<Longrightarrow> rd (pre @ xs) (int (length pre) + k) = rd xs k"
  by (auto simp: rd_def nth_append nat_add_distrib)

lemma rd_append_left: "k < int (length xs) \<Longrightarrow> rd (xs @ ys) k = rd xs k"
  by (auto simp: rd_def nth_append)

lemma rd_Cons_0: "rd (x # xs) 0 = Some x"
  by (simp add: rd_def)

lemma rd_Cons_Suc: "0 \<le> k \<Longrightarrow> rd (x # xs) (1 + k) = rd xs k"
  using rd_append_right [of k "[x]" xs] by simp

lemma rd_replicate: "0 \<le> k \<Longrightarrow> k < int n \<Longrightarrow> rd (replicate n x) k = Some x"
  by (simp add: rd_def)

lemma rd_nth: "0 \<le> k \<Longrightarrow> k < int (length xs) \<Longrightarrow> rd xs k = Some (xs ! nat k)"
  by (simp add: rd_def)

section \<open>The tag decoder on a well-ended tag\<close>

lemma skip_filler_stop:
  assumes "i \<le> j" "j < rlen"
    and "\<forall>k. i \<le> k \<and> k < j \<longrightarrow> rd m (rbuf + k) = Some 0"
    and "rd m (rbuf + j) = Some b" "b \<noteq> 0"
  shows "skip_filler m rbuf rlen i = Some j"
  using assms
proof (induction "nat (j - i)" arbitrary: i)
  case 0
  then have "i = j" by simp
  with "0.prems" show ?case by (subst skip_filler.simps) simp
next
  case (Suc n)
  then have lt: "i < j" and n: "n = nat (j - (i + 1))" by linarith+
  with Suc.prems have z: "rd m (rbuf + i) = Some 0" by simp
  from Suc.prems lt have "skip_filler m rbuf rlen (i + 1) = Some j"
    by (intro Suc.hyps(1) [OF n]) auto
  with z lt Suc.prems show ?case by (subst skip_filler.simps) simp
qed

lemma tag_loop_stop:
  assumes "i < e" "e < rlen"
    and "\<forall>k. i < k \<and> k < e \<longrightarrow> (\<exists>c. rd m (rbuf + k) = Some c \<and> c AND 0x80 \<noteq> 0)"
    and "rd m (rbuf + e) = Some x" "x AND 0x80 = 0"
  shows "\<exists>tag'. tag_loop m rbuf rlen i tag = Some (e, tag')"
  using assms
proof (induction "nat (e - i)" arbitrary: i tag)
  case 0
  then show ?case by simp
next
  case (Suc n)
  show ?case
  proof (cases "i + 1 = e")
    case True
    with Suc.prems show ?thesis by (subst tag_loop.simps) auto
  next
    case False
    with Suc.prems have lt: "i + 1 < e" by simp
    from Suc.hyps(2) have n: "n = nat (e - (i + 1))" by linarith
    from Suc.prems lt obtain c where c: "rd m (rbuf + (i + 1)) = Some c" "c AND 0x80 \<noteq> 0"
      by (metis less_add_one)
    from Suc.prems lt
    have "\<exists>tag'. tag_loop m rbuf rlen (i + 1) (push_bit 8 tag OR ucast c) = Some (e, tag')"
      by (intro Suc.hyps(1) [OF n]) auto
    with c lt Suc.prems show ?thesis by (subst tag_loop.simps) auto
  qed
qed

lemma tag_overlong_at:
  assumes "0 \<le> j" "j + 1 < e" "e < rlen"
    and "\<forall>k. 0 \<le> k \<and> k < j \<longrightarrow> rd m (rbuf + k) = Some 0"
    and "rd m (rbuf + j) = Some b" "b AND 0x1f = 0x1f"
    and "\<forall>k. j < k \<and> k < e \<longrightarrow> (\<exists>c. rd m (rbuf + k) = Some c \<and> c AND 0x80 \<noteq> 0)"
    and "rd m (rbuf + e) = Some x" "x AND 0x80 = 0"
  shows "tlv_tag m rbuf rlen = Some (Val (e + 1, 0))"
proof -
  from assms(6) have "b \<noteq> 0" by auto
  with assms have s: "skip_filler m rbuf rlen 0 = Some j"
    by (intro skip_filler_stop) auto
  from assms obtain tag' where t: "tag_loop m rbuf rlen j (ucast b) = Some (e, tag')"
    using tag_loop_stop [of j e rlen m rbuf x "ucast b"] by auto
  from assms s t show ?thesis
    by (simp add: tlv_tag_def)
qed


text \<open>
  Claim C8. A tag whose encoding ends inside the limit and takes more than two bytes (a
  first byte with the low five bits set, one or more continuation bytes with bit 7 set,
  a last byte with bit 7 clear), after any number of filler bytes: \<^verbatim>\<open>tlv_tag\<close> succeeds,
  returns the number of bytes up to and including the last tag byte, and reports the
  tag 0.
\<close>

theorem tlv_tag_overlong:
  assumes m: "m = pre @ replicate z 0 @ b # cs @ x # rest"
    and b: "b AND 0x1f = 0x1f"
    and cs: "cs \<noteq> []" "\<forall>c \<in> set cs. c AND 0x80 \<noteq> 0"
    and x: "x AND 0x80 = 0"
    and rlen: "int (z + length cs + 2) \<le> rlen"
  shows "tlv_tag m (int (length pre)) rlen = Some (Val (int (z + length cs + 2), 0))"
proof -
  let ?p = "int (length pre)"
  let ?e = "int (z + length cs + 1)"
  have fill: "\<forall>k. 0 \<le> k \<and> k < int z \<longrightarrow> rd m (?p + k) = Some 0"
    by (simp add: m rd_append_right rd_append_left rd_replicate)
  have first: "rd m (?p + int z) = Some b"
    using rd_append_right [of 0 "replicate z 0" "b # cs @ x # rest"]
    by (simp add: m rd_append_right rd_Cons_0)
  have tail: "rd m (?p + (int z + (1 + k))) = rd (cs @ x # rest) k" if "0 \<le> k" for k
    using that rd_append_right [of "1 + k" "replicate z 0" "b # cs @ x # rest"]
    by (simp add: m rd_append_right rd_Cons_Suc)
  have cont: "\<exists>c. rd m (?p + k) = Some c \<and> c AND 0x80 \<noteq> 0" if "int z < k" "k < ?e" for k
  proof -
    from that have k: "0 \<le> k - int z - 1" "k - int z - 1 < int (length cs)" by simp_all
    then have "rd (cs @ x # rest) (k - int z - 1) = Some (cs ! nat (k - int z - 1))"
      by (simp only: rd_append_left [OF k(2)] rd_nth [OF k])
    moreover from k cs have "cs ! nat (k - int z - 1) AND 0x80 \<noteq> 0" by simp
    moreover have "?p + (int z + (1 + (k - int z - 1))) = ?p + k" by simp
    ultimately show ?thesis using tail [OF k(1)] by metis
  qed
  have last: "rd m (?p + ?e) = Some x"
    using tail [of "int (length cs)"] rd_append_right [of 0 cs "x # rest"]
    by (simp add: rd_Cons_0 add.commute add.left_commute)
  from cs have "int z + 1 < ?e" by (cases cs) simp_all
  moreover from rlen have "?e < rlen" by simp
  ultimately have "tlv_tag m ?p rlen = Some (Val (?e + 1, 0))"
    using fill first b cont last x
    by (intro tag_overlong_at [where j = "int z" and b = b and x = x]) auto
  then show ?thesis by (simp add: add.commute add.left_commute)
qed

theorem tlv_tag_overlong_witness:
  "tlv_tag ([0x55] @ replicate 2 0 @ 0x9F # [0x81] @ 0x01 # [0x01, 0xAA]) (int (length [0x55 :: uchar])) 5
     = Some (Val (int (2 + length [0x81 :: uchar] + 2), 0))"
  using tlv_tag_overlong [of "[0x55] @ replicate 2 0 @ 0x9F # [0x81] @ 0x01 # [0x01, 0xAA]"
      "[0x55]" 2 "0x9F" "[0x81]" "0x01" "[0x01, 0xAA]" 5]
  by simp


section \<open>Reads and the limit\<close>

text \<open>
  Claim C1 says that no decoder reads a byte at an index outside \<open>[0, rlen)\<close>. The
  \<^verbatim>\<open>do\<close> loop of \<^verbatim>\<open>tlv_tag\<close> increments \<^verbatim>\<open>i\<close> and reads \<^verbatim>\<open>rbuf[i]\<close> before it compares \<^verbatim>\<open>i\<close>
  with \<^verbatim>\<open>rlen\<close>: on a block of exactly \<^verbatim>\<open>rlen\<close> bytes whose last byte is a tag byte that
  announces a continuation, the read at index \<^verbatim>\<open>rlen\<close> leaves the block, in \<^verbatim>\<open>tlv_tag\<close> and
  in both decoders built on it.
\<close>

theorem tlv_tag_reads_past_limit:
  "tlv_tag [0x9F] 0 1 = None \<and> tlv_tlv0 [0x9F] 0 1 = None \<and> tlv_parseTLV [0x9F] 0 1 = None \<and>
   tlv_tag [0x9F, 0x81] 0 2 = None"
  by (simp add: tlv_parseTLV_def tlv_tlv0_def tlv_tag_def rd_def skip_filler.simps tag_loop.simps)

section \<open>The length field\<close>

text \<open>
  Claim C7 as stated fails: with the length byte \<open>0x83\<close> as the last byte of the limit,
  the count 3 exceeds both 2 and the bytes that remain (none), and the decoders return
  \<open>-1\<close>, not \<open>-2\<close>.
\<close>

theorem tlv_tlv0_short_before_long_counterexample:
  "rd [0x82, 0x83] 1 = Some 0x83 \<and> (0x83 :: uchar) AND 0x80 \<noteq> 0 \<and> 2 < uint ((0x83 :: uchar) AND 0x7f) \<and>
   tlv_tlv0 [0x82, 0x83] 0 2 = Some (Rc (- 1)) \<and> tlv_parseTLV [0x82, 0x83] 0 2 = Some (Rc (- 1))"
  by (simp add: tlv_parseTLV_def tlv_tlv0_def tlv_tag_def rd_def skip_filler.simps tag_loop.simps)

text \<open>
  Claim C7, amended. When the first byte of the length field has bit 7 set and its low
  seven bits exceed 2, \<^verbatim>\<open>tlv_tlv0\<close> and \<^verbatim>\<open>tlv_parseTLV\<close> return \<open>-2\<close> provided that at least
  that many bytes remain inside the limit after the length's first byte; when fewer
  remain, the test for the short buffer comes first and they return \<open>-1\<close>.
\<close>

theorem tlv_tlv0_length_field_too_long:
  assumes "tlv_tag m rbuf rlen = Some (Val (i, tag))"
    and "i < rlen" and "rd m (rbuf + i) = Some b"
    and "b AND 0x80 \<noteq> 0" and "2 < uint (b AND 0x7f)"
  shows "tlv_tlv0 m rbuf rlen = Some (Rc (if uint (b AND 0x7f) \<le> rlen - i - 1 then - 2 else - 1)) \<and>
         tlv_parseTLV m rbuf rlen = Some (Rc (if uint (b AND 0x7f) \<le> rlen - i - 1 then - 2 else - 1))"
  using assms by (simp add: tlv_parseTLV_def tlv_tlv0_def Let_def)

theorem tlv_tlv0_length_field_too_long_witness:
  "tlv_tlv0 [0x82, 0x83, 0x01, 0x02, 0x03] 0 5 = Some (Rc (- 2)) \<and>
   tlv_parseTLV [0x82, 0x83, 0x01, 0x02, 0x03] 0 5 = Some (Rc (- 2)) \<and>
   tlv_tlv0 [0x82, 0x83, 0x01, 0x02, 0x03] 0 4 = Some (Rc (- 1))"
proof -
  let ?m = "[0x82, 0x83, 0x01, 0x02, 0x03] :: uchar list"
  have t: "tlv_tag ?m 0 5 = Some (Val (1, 0x82))" "tlv_tag ?m 0 4 = Some (Val (1, 0x82))"
    by (simp_all add: tlv_tag_def rd_def skip_filler.simps)
  have r: "rd ?m (0 + 1) = Some 0x83" by (simp add: rd_def)
  from tlv_tlv0_length_field_too_long [OF t(1) _ r] tlv_tlv0_length_field_too_long [OF t(2) _ r]
  show ?thesis by simp
qed

section \<open>Capacity\<close>

text \<open>
  Claim C2 says that \<^verbatim>\<open>tb_add\<close> appends only when the used length plus the encoded span
  is at most the capacity, and never writes at an offset at or beyond \<^verbatim>\<open>mlen\<close>. The test
  in the code is \<^verbatim>\<open>len + l + 2 >= mlen\<close>, whatever the widths of tag and length are. An
  empty collection of capacity 131 takes the tag \<open>0x9F02\<close> with 128 value bytes (a span of
  132 bytes): on a block of 131 bytes the last write leaves the block, and on a larger
  block \<^verbatim>\<open>tb_add\<close> returns 1 with the byte at offset 131 written and a used length of 132.
\<close>

theorem tb_add_writes_past_capacity:
  "tb_add (tb_init (replicate 131 0) 131) (Some (replicate 128 0xAA))
       \<lparr>tlv_t = 0x9F02, tlv_l = 0x80, tlv_v = 0\<rparr> 3 = None \<and>
   map_option (\<lambda>(r, tb, t). (r, tb_mlen tb, tb_len tb, tb_buf tb ! 131, tlv_v t))
     (tb_add (tb_init (replicate 200 0) 131) (Some (replicate 128 0xAA))
        \<lparr>tlv_t = 0x9F02, tlv_l = 0x80, tlv_v = 0\<rparr> 3)
     = Some (1, 131, 132, 0xAA, 4)"
  by code_simp


section \<open>The ASCII header on digits\<close>

lemma isdigit_value: "isdigit d \<Longrightarrow> unat (d - 0x30) \<le> 9"
  unfolding isdigit_def by (auto simp: word_le_nat_alt unat_sub)

lemma isdigit_plain: "isdigit d \<Longrightarrow> \<not> isspace d \<and> d \<noteq> 0x2b \<and> d \<noteq> 0x2d"
  unfolding isdigit_def isspace_def by (auto simp: word_le_nat_alt)

lemma isdigit_not_NUL: "isdigit d \<Longrightarrow> d \<noteq> 0"
  unfolding isdigit_def by (auto simp: word_le_nat_alt)

lemma sscanf_u_4:
  assumes "isdigit d0" "isdigit d1" "isdigit d2" "isdigit d3"
  shows "sscanf_u 4 (d0 # d1 # d2 # d3 # s) = Some (of_nat (decimal_value [d0, d1, d2, d3]))"
  using assms isdigit_plain [OF assms(1)]
  by (simp add: sscanf_u_def decimal_value_def eval_nat_numeral)

lemma sscanf_u_2:
  assumes "isdigit d0" "isdigit d1"
  shows "sscanf_u 2 (d0 # d1 # s) = Some (of_nat (decimal_value [d0, d1]))"
  using assms isdigit_plain [OF assms(1)]
  by (simp add: sscanf_u_def decimal_value_def eval_nat_numeral)

lemma string_at_digits:
  assumes "isdigit d0" "isdigit d1" "isdigit d2" "isdigit d3" "isdigit d4" "isdigit d5"
  shows "string_at (pre @ d0 # d1 # d2 # d3 # d4 # d5 # rest) (int (length pre)) =
           (if 0 \<in> set rest
            then Some (d0 # d1 # d2 # d3 # d4 # d5 # takeWhile (\<lambda>c. c \<noteq> 0) rest) else None)"
  using assms [THEN isdigit_not_NUL] by (auto simp: string_at_def)

lemma decimal_value_4:
  assumes "isdigit d0" "isdigit d1" "isdigit d2" "isdigit d3"
  shows "decimal_value [d0, d1, d2, d3] \<le> 9999"
  using assms [THEN isdigit_value] by (simp add: decimal_value_def)

lemma ushort_of_scanned:
  assumes "n \<le> 9999"
  shows "(ucast (of_nat n :: 32 word) :: ushort) = of_nat n"
    and "((of_nat n :: ushort) < 2) = (n < 2)"
    and "2 \<le> n \<Longrightarrow> uint ((of_nat n :: ushort) - 2) = int n - 2"
proof -
  from assms have "take_bit 32 n = n"
    by (intro take_bit_nat_eq_self) simp
  then show "(ucast (of_nat n :: 32 word) :: ushort) = of_nat n"
    by (simp add: unsigned_of_nat)
  from assms have u: "unat (of_nat n :: ushort) = n"
    by (simp add: unat_of_nat)
  then show "((of_nat n :: ushort) < 2) = (n < 2)"
    by (simp add: word_less_nat_alt)
  assume "2 \<le> n"
  with u have "unat ((of_nat n :: ushort) - 2) = n - 2"
    by (simp add: unat_sub word_le_nat_alt)
  with \<open>2 \<le> n\<close> show "uint ((of_nat n :: ushort) - 2) = int n - 2"
    by (simp add: uint_nat)
qed

text \<open>
  Claim C9 fails on the code. \<^verbatim>\<open>tlv_parseLTV\<close> hands the buffer to \<^verbatim>\<open>sscanf\<close>, which takes it
  for a string and reads on to the first NUL byte, past the six digits and past the limit
  \<^verbatim>\<open>rlen\<close>. The theorem gives the result on every block that holds six ASCII decimal digits
  at the pointer. When the limit is below 6 the result is \<open>-1\<close>. Otherwise, when no NUL byte
  follows the digits inside the block, the call reads outside the block; when one does,
  the result is the one the claim states: \<open>-1\<close> when the number of the first four digits
  is below 2 or when that number minus 2 exceeds the limit minus 6, else success with the
  length that number minus 2, the value at offset 6, and the tag the number of the first
  two digits (read from the start of the buffer, as the length is).
\<close>

theorem tlv_parseLTV_digits:
  assumes m: "m = pre @ d0 # d1 # d2 # d3 # d4 # d5 # rest"
    and d: "isdigit d0" "isdigit d1" "isdigit d2" "isdigit d3" "isdigit d4" "isdigit d5"
  shows "tlv_parseLTV m (int (length pre)) rlen =
           (if rlen < 6 then Some (Rc (- 1))
            else if 0 \<notin> set rest then None
            else Some (if decimal_value [d0, d1, d2, d3] < 2 \<or>
                          int (decimal_value [d0, d1, d2, d3]) - 2 > rlen - 6
                       then Rc (- 1)
                       else Val \<lparr>tlv_t = of_nat (decimal_value [d0, d1]),
                                 tlv_l = of_nat (decimal_value [d0, d1, d2, d3] - 2),
                                 tlv_v = int (length pre) + 6\<rparr>))"
proof -
  let ?n = "decimal_value [d0, d1, d2, d3]"
  note s = string_at_digits [OF d, of pre rest]
  have n: "?n \<le> 9999" using d by (intro decimal_value_4)
  have k: "decimal_value [d0, d1] \<le> 9999"
    using d(1,2) [THEN isdigit_value] by (simp add: decimal_value_def)
  have sub: "(of_nat ?n :: ushort) - 2 = of_nat (?n - 2)" if "2 \<le> ?n"
    using that by (simp add: of_nat_diff)
  show ?thesis
    using d sub
    by (simp add: tlv_parseLTV_def m s sscanf_u_4 sscanf_u_2 Let_def
          ushort_of_scanned [OF n] ushort_of_scanned(1) [OF k] not_less)
qed

theorem tlv_parseLTV_digits_witness:
  "tlv_parseLTV ([] @ 0x30 # 0x30 # 0x31 # 0x32 # 0x33 # 0x34 # replicate 10 0x61) (int (length ([] :: uchar list))) 16
     = None \<and>
   tlv_parseLTV ([0xFF] @ 0x30 # 0x30 # 0x31 # 0x32 # 0x33 # 0x34 # replicate 10 0x61 @ [0]) (int (length [0xFF :: uchar])) 16
     = Some (Val \<lparr>tlv_t = 0, tlv_l = 10, tlv_v = 7\<rparr>)"
  using tlv_parseLTV_digits [of "[] @ 0x30 # 0x30 # 0x31 # 0x32 # 0x33 # 0x34 # replicate 10 0x61" "[]"
      "0x30" "0x30" "0x31" "0x32" "0x33" "0x34" "replicate 10 0x61" 16]
    tlv_parseLTV_digits [of "[0xFF] @ 0x30 # 0x30 # 0x31 # 0x32 # 0x33 # 0x34 # replicate 10 0x61 @ [0]" "[0xFF]"
      "0x30" "0x30" "0x31" "0x32" "0x33" "0x34" "replicate 10 0x61 @ [0]" 16]
  by (simp add: isdigit_def decimal_value_def)


section \<open>Encoding and decoding of a record\<close>

text \<open>
  What \<^verbatim>\<open>tb_add\<close> appends is read back by \<^verbatim>\<open>tlv_tag\<close>, \<^verbatim>\<open>tlv_tlv0\<close> and \<^verbatim>\<open>tlv_parseTLV\<close>.
\<close>

lemma ushort_split: "push_bit 8 (ucast (ucast (drop_bit 8 w :: ushort) :: uchar)) OR ucast (ucast w :: uchar) = (w :: ushort)"
  by (rule bit_word_eqI) (auto simp: bit_simps)


lemma ucast_ucast_low: "(ucast (ucast w :: uchar) :: ushort) = w AND mask 8"
  by (rule bit_word_eqI) (auto simp: bit_simps)

lemma ushort_low: "w \<le> 0xff \<Longrightarrow> ucast (ucast w :: uchar) = (w :: ushort)"
proof -
  assume "w \<le> 0xff"
  then have "w < 2 ^ 8" by (simp add: word_less_nat_alt word_le_nat_alt)
  then have "w AND mask 8 = w" by (rule less_mask_eq)
  then show ?thesis by (simp add: ucast_ucast_low)
qed

lemma uchar_and: "(ucast (w AND k) :: uchar) = ucast (w :: ushort) AND ucast k"
  by (rule unsigned_and_eq)

lemma short_len_bit7: "(n :: ushort) \<le> 0x7f \<Longrightarrow> (ucast n :: uchar) AND 0x80 = 0"
proof -
  assume "n \<le> 0x7f"
  then have "n < 2 ^ 7" by (simp add: word_less_nat_alt word_le_nat_alt)
  then have m: "n AND mask 7 = n" by (rule less_mask_eq)
  have "(mask 7 :: ushort) AND 0x80 = 0" by (simp add: mask_numeral)
  then have "(n AND mask 7) AND 0x80 = 0" by (simp add: and.assoc)
  then have "n AND 0x80 = 0" by (simp only: m)
  then have "(ucast (n AND 0x80) :: uchar) = 0" by simp
  then show ?thesis by (simp add: uchar_and)
qed

lemma good_tag_1:
  assumes "good_tag tg" "\<not> tg > 0xff"
  shows "(ucast tg :: uchar) \<noteq> 0" "(ucast tg :: uchar) AND 0x1f \<noteq> 0x1f"
    "ucast (ucast tg :: uchar) = tg"
proof -
  from assms have low: "tg \<le> 0xff" and nz: "tg \<noteq> 0" and ns: "tg AND 0x1f \<noteq> 0x1f"
    by (simp_all add: good_tag_def not_less)
  show c: "ucast (ucast tg :: uchar) = tg" using low by (rule ushort_low)
  show "(ucast tg :: uchar) \<noteq> 0"
  proof
    assume "(ucast tg :: uchar) = 0"
    then have "(ucast (ucast tg :: uchar) :: ushort) = 0" by simp
    with c nz show False by simp
  qed
  show "(ucast tg :: uchar) AND 0x1f \<noteq> 0x1f"
  proof
    assume "(ucast tg :: uchar) AND 0x1f = 0x1f"
    then have "(ucast ((ucast tg :: uchar) AND 0x1f) :: ushort) = ucast (0x1f :: uchar)" by simp
    then have "(ucast (ucast tg :: uchar) :: ushort) AND 0x1f = 0x1f"
      by (simp add: unsigned_and_eq)
    with c ns show False by simp
  qed
qed

lemma good_tag_2:
  assumes "good_tag tg" "tg > 0xff"
  shows "(ucast (drop_bit 8 tg) :: uchar) AND 0x1f = 0x1f" "(ucast tg :: uchar) AND 0x80 = 0"
proof -
  from assms have h: "drop_bit 8 tg AND 0x1f = 0x1f" and l: "tg AND 0x80 = 0"
    by (simp_all add: good_tag_def)
  from h have "(ucast (drop_bit 8 tg AND 0x1f) :: uchar) = ucast (0x1f :: ushort)" by simp
  then show "(ucast (drop_bit 8 tg) :: uchar) AND 0x1f = 0x1f" by (simp add: uchar_and)
  from l have "(ucast (tg AND 0x80) :: uchar) = ucast (0 :: ushort)" by simp
  then show "(ucast tg :: uchar) AND 0x80 = 0" by (simp add: uchar_and)
qed


lemma rd_of_mem_get:
  assumes "mem_get m p n = Some xs" "0 \<le> k" "k < n"
  shows "rd m (p + k) = Some (xs ! nat k)"
proof -
  from assms have b: "0 \<le> p" "p + n \<le> int (length m)" and xs: "xs = take (nat n) (drop (nat p) m)"
    by (auto simp: mem_get_def split: if_splits)
  from assms b have "nat (p + k) = nat p + nat k" "nat k < nat n" "nat p + nat k < length m"
    by linarith+
  with assms b show ?thesis by (simp add: rd_def xs)
qed

lemma tlv_tag_one:
  assumes "rd m p = Some b" "b \<noteq> 0" "b AND 0x1f \<noteq> 0x1f" "0 < rlen"
  shows "tlv_tag m p rlen = Some (Val (1, ucast b))"
proof -
  from assms have "skip_filler m p rlen 0 = Some 0"
    by (subst skip_filler.simps) simp
  with assms show ?thesis by (simp add: tlv_tag_def)
qed

lemma tlv_tag_two:
  assumes "rd m p = Some b" "b AND 0x1f = 0x1f" "rd m (p + 1) = Some c" "c AND 0x80 = 0" "1 < rlen"
  shows "tlv_tag m p rlen = Some (Val (2, push_bit 8 (ucast b) OR ucast c))"
proof -
  from assms(2) have "b \<noteq> 0" by auto
  with assms have "skip_filler m p rlen 0 = Some 0"
    by (subst skip_filler.simps) simp
  moreover from assms have "tag_loop m p rlen 0 (ucast b) = Some (1, push_bit 8 (ucast b) OR ucast c)"
    by (subst tag_loop.simps) simp
  ultimately show ?thesis using assms by (simp add: tlv_tag_def)
qed

lemma tlv_tag_enc:
  assumes g: "good_tag tg"
    and at: "mem_get m p (int (length (enc_tag tg @ ys))) = Some (enc_tag tg @ ys)"
    and rlen: "int (length (enc_tag tg)) \<le> rlen"
  shows "tlv_tag m p rlen = Some (Val (int (length (enc_tag tg)), tg))"
proof (cases "tg > 0xff")
  case True
  then have e: "enc_tag tg = [ucast (drop_bit 8 tg), ucast tg]" by (simp add: enc_tag_def)
  from rd_of_mem_get [OF at, of 0] rd_of_mem_get [OF at, of 1]
  have "rd m p = Some (ucast (drop_bit 8 tg))" "rd m (p + 1) = Some (ucast tg)"
    by (simp_all add: e)
  with good_tag_2 [OF g True] rlen
  have "tlv_tag m p rlen = Some (Val (2, push_bit 8 (ucast (ucast (drop_bit 8 tg) :: uchar)) OR ucast (ucast tg :: uchar)))"
    by (intro tlv_tag_two) (simp_all add: e)
  then show ?thesis by (simp add: e ushort_split)
next
  case False
  then have e: "enc_tag tg = [ucast tg]" by (simp add: enc_tag_def)
  from rd_of_mem_get [OF at, of 0] have "rd m p = Some (ucast tg)" by (simp add: e)
  with good_tag_1 [OF g False] rlen
  have "tlv_tag m p rlen = Some (Val (1, ucast (ucast tg :: uchar)))"
    by (intro tlv_tag_one) (simp_all add: e)
  with good_tag_1 [OF g False] show ?thesis by (simp add: e)
qed


lemma len_loop_0: "len_loop m p 0 len = Some (len, p)"
  by (subst len_loop.simps) simp

lemma len_loop_1: "rd m p = Some b \<Longrightarrow> len_loop m p 1 len = Some (push_bit 8 len OR ucast b, p + 1)"
  by (subst len_loop.simps) (simp add: len_loop_0)

lemma len_loop_2:
  "rd m p = Some b \<Longrightarrow> rd m (p + 1) = Some c \<Longrightarrow>
   len_loop m p 2 len = Some (push_bit 8 (push_bit 8 len OR ucast b) OR ucast c, p + 2)"
  by (subst len_loop.simps) (simp add: len_loop_1)

lemma tlv_tlv0_enc_len:
  assumes t: "tlv_tag m p rlen = Some (Val (i, tg))"
    and at: "mem_get m (p + i) (int (length (enc_len n @ ys))) = Some (enc_len n @ ys)"
    and rlen: "i + int (length (enc_len n)) \<le> rlen"
  shows "tlv_tlv0 m p rlen = Some (Val \<lparr>tlv_t = tg, tlv_l = n, tlv_v = p + i + int (length (enc_len n))\<rparr>)"
proof -
  consider (long) "n > 0xff" | (mid) "\<not> n > 0xff" "n > 0x7f" | (short) "\<not> n > 0xff" "\<not> n > 0x7f"
    by blast
  then show ?thesis
  proof cases
    case long
    then have e: "enc_len n = [0x82, ucast (drop_bit 8 n), ucast n]" by (simp add: enc_len_def)
    from rd_of_mem_get [OF at, of 0] rd_of_mem_get [OF at, of 1] rd_of_mem_get [OF at, of 2]
    have r: "rd m (p + i) = Some 0x82" "rd m (p + i + 1) = Some (ucast (drop_bit 8 n))"
      "rd m (p + i + 1 + 1) = Some (ucast n)"
      by (simp_all add: e add.assoc)
    have "len_loop m (p + i + 1) 2 0 = Some (n, p + i + 1 + 2)"
      using len_loop_2 [OF r(2,3), of 0] by (simp add: ushort_split)
    with t r(1) rlen show ?thesis
      by (simp add: tlv_tlv0_def e)
  next
    case mid
    then have e: "enc_len n = [0x81, ucast n]" by (simp add: enc_len_def)
    from rd_of_mem_get [OF at, of 0] rd_of_mem_get [OF at, of 1]
    have r: "rd m (p + i) = Some 0x81" "rd m (p + i + 1) = Some (ucast n)"
      by (simp_all add: e add.assoc)
    from mid have "n \<le> 0xff" by (simp add: not_less)
    then have "len_loop m (p + i + 1) 1 0 = Some (n, p + i + 1 + 1)"
      using len_loop_1 [OF r(2), of 0] by (simp add: ushort_low)
    with t r(1) rlen show ?thesis
      by (simp add: tlv_tlv0_def e)
  next
    case short
    then have e: "enc_len n = [ucast n]" and le: "n \<le> 0x7f" by (simp_all add: enc_len_def not_less)
    from rd_of_mem_get [OF at, of 0]
    have r: "rd m (p + i) = Some (ucast n)"
      by (simp_all add: e)
    from le have "n \<le> 0xff" by (simp add: word_le_nat_alt)
    then have "ucast (ucast n :: uchar) = n" by (rule ushort_low)
    with t r rlen short_len_bit7 [OF le] show ?thesis
      by (simp add: tlv_tlv0_def e)
  qed
qed

lemma mem_get_tail:
  assumes "mem_get m p (int (length (xs @ ys))) = Some (xs @ ys)"
  shows "mem_get m (p + int (length xs)) (int (length ys)) = Some ys"
proof -
  from assms have b: "0 \<le> p" "p + int (length xs) + int (length ys) \<le> int (length m)"
    and t: "take (length xs + length ys) (drop (nat p) m) = xs @ ys"
    by (auto simp: mem_get_def nat_int_add split: if_splits)
  from arg_cong [OF t, of "drop (length xs)"]
  have "take (length ys) (drop (length xs) (drop (nat p) m)) = ys"
    by (simp add: drop_take)
  moreover from b have "nat (p + int (length xs)) = length xs + nat p" by linarith
  ultimately have "take (length ys) (drop (nat (p + int (length xs))) m) = ys"
    by simp
  with b show ?thesis by (simp add: mem_get_def)
qed

lemma tlv_parseTLV_enc:
  assumes g: "good_tag tg"
    and at: "mem_get m p (int (length (enc_tag tg @ enc_len n @ ys))) = Some (enc_tag tg @ enc_len n @ ys)"
    and rlen: "int (length (enc_tag tg @ enc_len n)) + uint n \<le> rlen"
  shows "tlv_parseTLV m p rlen =
           Some (Val \<lparr>tlv_t = tg, tlv_l = n, tlv_v = p + int (length (enc_tag tg @ enc_len n))\<rparr>)"
proof -
  have u: "0 \<le> uint n" by simp
  from at have at2: "mem_get m (p + int (length (enc_tag tg))) (int (length (enc_len n @ ys))) = Some (enc_len n @ ys)"
    by (rule mem_get_tail)
  from rlen have r: "int (length (enc_tag tg)) + int (length (enc_len n)) + uint n \<le> rlen"
    by simp
  from r uint_ge_0 [of n] have "int (length (enc_tag tg)) \<le> rlen" by linarith
  with g at have "tlv_tag m p rlen = Some (Val (int (length (enc_tag tg)), tg))"
    using tlv_tag_enc [of tg m p "enc_len n @ ys" rlen] by simp
  moreover from r uint_ge_0 [of n]
  have "int (length (enc_tag tg)) + int (length (enc_len n)) \<le> rlen"
    by linarith
  ultimately have "tlv_tlv0 m p rlen = Some (Val \<lparr>tlv_t = tg, tlv_l = n,
      tlv_v = p + int (length (enc_tag tg)) + int (length (enc_len n))\<rparr>)"
    using at2 by (intro tlv_tlv0_enc_len)
  with rlen show ?thesis by (simp add: tlv_parseTLV_def add.assoc)
qed


lemma wr_put_bind:
  assumes "q = p + 1"
  shows "wr m p x \<bind> (\<lambda>m'. mem_put m' q ys \<bind> f) = mem_put m p (x # ys) \<bind> f"
proof (cases "0 \<le> p \<and> p < int (length m)")
  case True
  then have n: "nat q = Suc (nat p)" using assms by linarith
  from True have lt: "nat p < length m" by linarith
  then have "take (Suc (nat p)) (m[nat p := x]) = take (nat p) m @ [x]"
    by (simp add: take_Suc_conv_app_nth)
  moreover have "drop (Suc (nat p) + length ys) (m[nat p := x]) = drop (Suc (nat p) + length ys) m"
    by simp
  ultimately show ?thesis using True assms n lt
    by (auto simp: wr_def mem_put_def)
next
  case False
  then show ?thesis using assms by (auto simp: wr_def mem_put_def)
qed

lemma wr_put_bind_last:
  assumes "q = p + 1"
  shows "wr m p x \<bind> (\<lambda>m'. mem_put m' q ys) = mem_put m p (x # ys)"
  using wr_put_bind [OF assms, of m x ys Some] by simp


lemma mem_get_length: "mem_get m p n = Some xs \<Longrightarrow> int (length xs) = n"
proof -
  assume a: "mem_get m p n = Some xs"
  then have b: "0 \<le> p" "0 \<le> n" "p + n \<le> int (length m)" and xs: "xs = take (nat n) (drop (nat p) m)"
    by (auto simp: mem_get_def split: if_splits)
  from b have "nat n \<le> length m - nat p" by linarith
  with b show ?thesis by (simp add: xs min_def)
qed

lemma src_bytes_length: "src_bytes src tlv = Some xs \<Longrightarrow> int (length xs) = uint (tlv_l tlv)"
  by (cases src) (auto simp: src_bytes_def dest: mem_get_length)

lemma tb_append_enc:
  assumes cap: "uint (tb_len tb) + uint (tlv_l tlv) + 2 < uint (tb_mlen tb)"
    and src: "src_bytes src tlv = Some xs"
  shows "tb_append tb src tlv =
           do { m \<leftarrow> mem_put (tb_buf tb) (uint (tb_len tb))
                        (enc_tag (tlv_t tlv) @ enc_len (tlv_l tlv) @ xs);
                Some (1, tb\<lparr>tb_buf := m,
                             tb_len := word_of_int (uint (tb_len tb)
                                + int (length (enc_tag (tlv_t tlv) @ enc_len (tlv_l tlv)))
                                + uint (tlv_l tlv))\<rparr>,
                      tlv\<lparr>tlv_v := uint (tb_len tb)
                                + int (length (enc_tag (tlv_t tlv) @ enc_len (tlv_l tlv)))\<rparr>) }"
proof -
  have data: "(case src of
                 Some s \<Rightarrow> mem_get s (tlv_v tlv) (uint (tlv_l tlv)) \<bind> mem_put m b
               | None \<Rightarrow> mem_put m b (replicate (unat (tlv_l tlv)) 0)) = mem_put m b xs" for m b
    using src by (auto simp: src_bytes_def split: option.splits)
  from cap have c: "\<not> uint (tb_mlen tb) \<le> uint (tb_len tb) + uint (tlv_l tlv) + 2" by simp
  show ?thesis
    unfolding tb_append_def enc_tag_def enc_len_def
    using c by (simp add: data wr_put_bind wr_put_bind_last Let_def) (simp add: add_ac)
qed


lemma tlv_parseTLV_no_room: "tlv_parseTLV m p 0 = Some (Rc 0)"
proof -
  have "skip_filler m p 0 0 = Some 0" by (subst skip_filler.simps) simp
  then show ?thesis by (simp add: tlv_parseTLV_def tlv_tlv0_def tlv_tag_def)
qed

lemma tb_find_empty: "tb_len tb = 0 \<Longrightarrow> tb_find tb tg = Some (Rc 0)"
  by (simp add: tb_find_def tlv_find_def find_loop.simps [of _ 0 0] tlv_parseTLV_no_room)

lemma good_tag_accepted:
  "good_tag tg \<Longrightarrow>
   \<not> ((tg \<le> 0xff \<and> tlv_tag0 tg AND 0x1f = 0x1f) \<or> (tg > 0xff \<and> tg AND 0x80 \<noteq> 0) \<or> tg = 0)"
  by (auto simp: good_tag_def tlv_tag0_def split: if_splits)

lemma mem_put_Some:
  "0 \<le> p \<Longrightarrow> p + int (length xs) \<le> int (length m) \<Longrightarrow>
   mem_put m p xs = Some (take (nat p) m @ xs @ drop (nat p + length xs) m)"
  by (simp add: mem_put_def)

lemma mem_get_middle: "mem_get (pre @ xs @ post) (int (length pre)) (int (length xs)) = Some xs"
  by (simp add: mem_get_def)

lemma tb_add_not_found:
  assumes g: "good_tag tg" and n: "n \<noteq> 0"
    and nf: "ovr < 3 \<Longrightarrow> tb_find tb tg = Some (Rc i)"
    and cap: "uint (tb_len tb) + uint n + 2 < uint (tb_mlen tb)"
    and src: "src_bytes src \<lparr>tlv_t = tg, tlv_l = n, tlv_v = v\<rparr> = Some xs"
    and room: "uint (tb_len tb) + int (length (enc_tag tg @ enc_len n)) + uint n \<le> int (length (tb_buf tb))"
  shows "tb_add tb src \<lparr>tlv_t = tg, tlv_l = n, tlv_v = v\<rparr> ovr =
           Some (1, tb\<lparr>tb_buf := take (unat (tb_len tb)) (tb_buf tb) @ (enc_tag tg @ enc_len n @ xs)
                                   @ drop (unat (tb_len tb) + length (enc_tag tg @ enc_len n @ xs)) (tb_buf tb),
                        tb_len := word_of_int (uint (tb_len tb) + int (length (enc_tag tg @ enc_len n)) + uint n)\<rparr>,
                 \<lparr>tlv_t = tg, tlv_l = n, tlv_v = uint (tb_len tb) + int (length (enc_tag tg @ enc_len n))\<rparr>)"
proof -
  let ?tlv = "\<lparr>tlv_t = tg, tlv_l = n, tlv_v = v\<rparr>"
  from src_bytes_length [OF src] have len: "int (length xs) = uint n" by simp
  from good_tag_accepted [OF g]
  have acc: "\<not> ((tlv_t ?tlv \<le> 0xff \<and> tlv_tag0 (tlv_t ?tlv) AND 0x1f = 0x1f) \<or>
                (tlv_t ?tlv > 0xff \<and> tlv_t ?tlv AND 0x80 \<noteq> 0) \<or> tlv_t ?tlv = 0)"
    by simp
  from n have nz: "tlv_l ?tlv \<noteq> 0" by simp
  have "tb_add tb src ?tlv ovr = tb_append tb src ?tlv"
  proof (cases "ovr < 3")
    case True
    with nf have "tb_find tb (tlv_t ?tlv) = Some (Rc i)" by simp
    with True show ?thesis unfolding tb_add_def by (simp only: acc nz if_False if_True bind.simps ret.case)
  next
    case False
    then show ?thesis unfolding tb_add_def by (simp only: acc nz if_False bind.simps ret.case)
  qed
  also from cap src have "\<dots> = do { m \<leftarrow> mem_put (tb_buf tb) (uint (tb_len tb)) (enc_tag tg @ enc_len n @ xs);
        Some (1, tb\<lparr>tb_buf := m,
                     tb_len := word_of_int (uint (tb_len tb) + int (length (enc_tag tg @ enc_len n)) + uint n)\<rparr>,
              ?tlv\<lparr>tlv_v := uint (tb_len tb) + int (length (enc_tag tg @ enc_len n))\<rparr>) }"
    using tb_append_enc [of tb ?tlv src xs] by simp
  also from room len
  have "mem_put (tb_buf tb) (uint (tb_len tb)) (enc_tag tg @ enc_len n @ xs) =
          Some (take (unat (tb_len tb)) (tb_buf tb) @ (enc_tag tg @ enc_len n @ xs)
                @ drop (unat (tb_len tb) + length (enc_tag tg @ enc_len n @ xs)) (tb_buf tb))"
    using mem_put_Some [of "uint (tb_len tb)" "enc_tag tg @ enc_len n @ xs" "tb_buf tb"] by simp
  finally show ?thesis by simp
qed


lemma header_length: "length (enc_tag tg @ enc_len n) \<le> 5" "2 \<le> length (enc_tag tg @ enc_len n)"
  by (simp_all add: enc_tag_def enc_len_def)

lemma uint_ushort_of_int: "0 \<le> k \<Longrightarrow> k < 65536 \<Longrightarrow> uint (word_of_int k :: ushort) = k"
  by (simp add: uint_word_of_int)

text \<open>
  Claim C6. For the tags \<open>0x82\<close> and \<open>0x9F02\<close>, the lengths 1, \<open>0x7F\<close>, \<open>0x80\<close> and
  \<open>0x1234\<close> and every value of that many bytes: \<^verbatim>\<open>tb_add\<close> (under any policy) on an empty
  collection whose block has \<^verbatim>\<open>mlen\<close> bytes, with room for the value and the longest header,
  returns 1, and \<^verbatim>\<open>tlv_parseTLV\<close> over \<open>buffer[0, len)\<close> then succeeds with the same tag, the
  same length, and a value pointer at which the original bytes lie.
\<close>

theorem tb_add_parse_roundtrip:
  assumes empty: "tb_len tb = 0" and block: "length (tb_buf tb) = unat (tb_mlen tb)"
    and tg: "tg \<in> {0x82, 0x9F02}" and n: "n \<in> {1, 0x7F, 0x80, 0x1234}"
    and vs: "length vs = unat n"
    and cap: "unat n + 5 \<le> unat (tb_mlen tb)"
  shows "\<exists>tb' h. tb_add tb (Some vs) \<lparr>tlv_t = tg, tlv_l = n, tlv_v = 0\<rparr> ovr
                    = Some (1, tb', \<lparr>tlv_t = tg, tlv_l = n, tlv_v = h\<rparr>) \<and>
                 tlv_parseTLV (tb_buf tb') 0 (uint (tb_len tb'))
                    = Some (Val \<lparr>tlv_t = tg, tlv_l = n, tlv_v = h\<rparr>) \<and>
                 mem_get (tb_buf tb') h (uint n) = Some vs"
proof -
  define hdr where "hdr = enc_tag tg @ enc_len n"
  define k where "k = int (length hdr) + uint n"
  let ?buf = "hdr @ vs @ drop (length (hdr @ vs)) (tb_buf tb)"
  let ?tb = "tb\<lparr>tb_buf := ?buf, tb_len := word_of_int k\<rparr>"
  from tg have g: "good_tag tg" by (auto simp: good_tag_def)
  from n have nz: "n \<noteq> 0" by auto
  have un: "uint n = int (unat n)" by simp
  have um: "uint (tb_mlen tb) = int (unat (tb_mlen tb))" by simp
  have hl: "length hdr \<le> 5" unfolding hdr_def by (rule header_length)
  from vs have src: "src_bytes (Some vs) \<lparr>tlv_t = tg, tlv_l = n, tlv_v = 0\<rparr> = Some vs"
    by (simp add: src_bytes_def mem_get_def)
  have e0: "uint (tb_len tb) = 0" by (simp add: empty)
  from cap un um e0 have c: "uint (tb_len tb) + uint n + 2 < uint (tb_mlen tb)"
    by linarith
  from cap hl block un e0
  have room: "uint (tb_len tb) + int (length (enc_tag tg @ enc_len n)) + uint n \<le> int (length (tb_buf tb))"
    unfolding hdr_def by linarith
  have add: "tb_add tb (Some vs) \<lparr>tlv_t = tg, tlv_l = n, tlv_v = 0\<rparr> ovr
               = Some (1, ?tb, \<lparr>tlv_t = tg, tlv_l = n, tlv_v = int (length hdr)\<rparr>)"
    using tb_add_not_found [where ovr = ovr and i = 0, OF g nz _ c src room] tb_find_empty [OF empty]
    by (simp add: empty hdr_def k_def)
  have "unat (tb_mlen tb) < 65536"
    using unsigned_less [of "tb_mlen tb", where 'a = nat] by simp
  with cap hl un have "0 \<le> k" "k < 65536"
    unfolding k_def by linarith+
  then have len: "uint (tb_len ?tb) = k"
    by (simp add: uint_ushort_of_int)
  have "mem_get ?buf 0 (int (length (hdr @ vs))) = Some (hdr @ vs)"
    using mem_get_middle [of "[]" "hdr @ vs"] by simp
  then have at: "mem_get ?buf 0 (int (length (enc_tag tg @ enc_len n @ vs))) = Some (enc_tag tg @ enc_len n @ vs)"
    by (simp add: hdr_def)
  have parse: "tlv_parseTLV (tb_buf ?tb) 0 (uint (tb_len ?tb))
                 = Some (Val \<lparr>tlv_t = tg, tlv_l = n, tlv_v = int (length hdr)\<rparr>)"
    using tlv_parseTLV_enc [OF g at, of k] unfolding len by (simp add: hdr_def k_def)
  have "mem_get (tb_buf ?tb) (int (length hdr)) (uint n) = Some vs"
    using mem_get_middle [of hdr vs "drop (length (hdr @ vs)) (tb_buf tb)"] vs by simp
  with add parse show ?thesis by blast
qed

theorem tb_add_parse_roundtrip_witness:
  "\<exists>tb' h. tb_add (tb_init (replicate 140 0) 140) (Some (replicate 128 0xAA))
                \<lparr>tlv_t = 0x9F02, tlv_l = 0x80, tlv_v = 0\<rparr> 0
              = Some (1, tb', \<lparr>tlv_t = 0x9F02, tlv_l = 0x80, tlv_v = h\<rparr>) \<and>
           tlv_parseTLV (tb_buf tb') 0 (uint (tb_len tb'))
              = Some (Val \<lparr>tlv_t = 0x9F02, tlv_l = 0x80, tlv_v = h\<rparr>) \<and>
           mem_get (tb_buf tb') h (uint (0x80 :: ushort)) = Some (replicate 128 0xAA)"
  using tb_add_parse_roundtrip [of "tb_init (replicate 140 0) 140" "0x9F02" "0x80" "replicate 128 0xAA" 0]
  by (simp add: tb_init_def)


section \<open>Deleting a record\<close>

text \<open>
  Claim C4 says that \<^verbatim>\<open>tb_del\<close> removes exactly the encoded span of the record, with two
  length bytes for the lengths \<open>0x80\<close> to \<open>0xFF\<close>, for every length including \<open>0xFF\<close>. The
  second test of \<^verbatim>\<open>tb_del\<close>, \<^verbatim>\<open>tlv.l > 0xff\<close>, reads the length that the first test has just
  incremented: a record of length \<open>0xFF\<close> is taken to have three length bytes. With the
  records A (tag \<open>0x81\<close>), B (tag \<open>0x82\<close>, 255 value bytes) and C (tag \<open>0x83\<close>) in a
  consistent collection, deleting B also overwrites the last byte of A: the value of A
  changes, C is no longer found and the buffer is no longer consistent. With B as the
  first record the copy starts one byte before the block.
\<close>

theorem tb_del_length_255:
  "(let tb = \<lparr>tb_mlen = 300, tb_len = 264,
               tb_buf = [0x81, 0x01, 0xAA] @ ([0x82, 0x81, 0xFF] @ replicate 255 0xBB) @ [0x83, 0x01, 0xCC]
                          @ replicate 36 0\<rparr>
    in tlv_check (tb_buf tb) 0 (uint (tb_len tb)) = Some True \<and>
       tb_find tb 0x81 = Some (Val \<lparr>tlv_t = 0x81, tlv_l = 1, tlv_v = 2\<rparr>) \<and>
       tb_find tb 0x82 = Some (Val \<lparr>tlv_t = 0x82, tlv_l = 0xFF, tlv_v = 6\<rparr>) \<and>
       tb_find tb 0x83 = Some (Val \<lparr>tlv_t = 0x83, tlv_l = 1, tlv_v = 263\<rparr>) \<and>
       map_option (\<lambda>(r, tb'). (r, tb_len tb', take 5 (tb_buf tb'), tb_find tb' 0x81, tb_find tb' 0x83,
                                 tlv_check (tb_buf tb') 0 (uint (tb_len tb'))))
         (tb_del tb 0x82)
         = Some (1, 5, [0x81, 0x01, 0x83, 0x01, 0xCC],
                 Some (Val \<lparr>tlv_t = 0x81, tlv_l = 1, tlv_v = 2\<rparr>), Some (Rc 0), Some False)) \<and>
   tb_del \<lparr>tb_mlen = 300, tb_len = 261,
           tb_buf = ([0x82, 0x81, 0xFF] @ replicate 255 0xBB) @ [0x83, 0x01, 0xCC] @ replicate 39 0\<rparr> 0x82
     = None"
  by code_simp

section \<open>Errors and the state of the collection\<close>
















section \<open>Decoding inside a larger block\<close>









section \<open>The consistency of a collection\<close>

text \<open>
  The invariant \<open>holds\<close> is true of an empty collection, every call of \<^verbatim>\<open>tb_add\<close> and
  \<^verbatim>\<open>tb_addbuf\<close> that returns 0 or more keeps it for views that satisfy \<open>view_ok\<close>, and
  \<^verbatim>\<open>tlv_check\<close> returns true on every collection of which it is true.
\<close>

lemma enc_recs_simps [simp]:
  "enc_recs [] = []" "enc_recs (r # rs) = enc_rec r @ enc_recs rs"
  "enc_recs (rs @ rs') = enc_recs rs @ enc_recs rs'"
  by (simp_all add: enc_recs_def)








































end
